theory Spec2Isabelle
  imports Main "HOL-Library.Word"
begin

section \<open>Domain layer (package domain): cells, board, game\<close>

text \<open>
  \<^verbatim>\<open>type Cell uint8; const (Empty Cell = iota; X; O)\<close>.  The constant \<^verbatim>\<open>O\<close> is written
  \<open>O'\<close> here, since \<open>O\<close> is the composition of relations in HOL.
\<close>

datatype Cell = Empty | X | O'

text \<open>Go's \<^verbatim>\<open>int\<close> on a 64-bit platform: two's complement, \<open>+\<close> wraps around.\<close>

type_synonym go_int = "64 word"

text \<open>
  \<^verbatim>\<open>type Game struct { Board Board; Turn Cell; Winner Cell; Over bool; Moves int }\<close>,
  with \<^verbatim>\<open>type Board [9]Cell\<close> stored row-major.  The board is a list of cells; the array
  type fixes its length to 9, which theorems about an arbitrary game state assume.
\<close>

record Game =
  Board :: "Cell list"
  Turn :: Cell
  Winner :: Cell
  Over :: bool
  Moves :: go_int

datatype domain_error = ErrOutOfBounds | ErrOccupied | ErrGameOver

text \<open>\<^verbatim>\<open>func New() Game { return Game{Turn: X} }\<close>: every other field has its zero value.\<close>

definition New :: Game where
  "New = \<lparr>Board = replicate 9 Empty, Turn = X, Winner = Empty, Over = False, Moves = 0\<rparr>"

text \<open>The table of the eight lines in \<^verbatim>\<open>hasWin\<close>, in the order of the source.\<close>

definition lines :: "(nat \<times> nat \<times> nat) list" where
  "lines = [(0, 1, 2), (3, 4, 5), (6, 7, 8),
            (0, 3, 6), (1, 4, 7), (2, 5, 8),
            (0, 4, 8), (2, 4, 6)]"

text \<open>The loop of \<^verbatim>\<open>hasWin\<close> over the table: it returns at the first line that matches.\<close>

fun hasWin_loop :: "Cell list \<Rightarrow> Cell \<Rightarrow> (nat \<times> nat \<times> nat) list \<Rightarrow> bool" where
  "hasWin_loop b side [] = False"
| "hasWin_loop b side ((i, j, k) # lns) =
     (if b ! i = side \<and> b ! j = side \<and> b ! k = side then True
      else hasWin_loop b side lns)"

definition hasWin :: "Cell list \<Rightarrow> Cell \<Rightarrow> bool" where
  "hasWin b side = hasWin_loop b side lines"

text \<open>
  \<^verbatim>\<open>func (g *Game) Play(r, c int) error\<close>.  The receiver is mutated in place, so the model
  returns the state after the call together with the error (\<open>None\<close> for \<^verbatim>\<open>nil\<close>).
  The comparisons are the signed ones of Go's \<^verbatim>\<open>int\<close>; the index \<^verbatim>\<open>r*3 + c\<close> is
  computed only after the bounds check.
\<close>

definition cell_index :: "go_int \<Rightarrow> go_int \<Rightarrow> nat" where
  "cell_index r c = nat (sint (r * 3 + c))"

definition Play :: "Game \<Rightarrow> go_int \<Rightarrow> go_int \<Rightarrow> Game \<times> domain_error option" where
  "Play g r c =
     (if Over g then (g, Some ErrGameOver)
      else if r <s 0 \<or> 2 <s r \<or> c <s 0 \<or> 2 <s c then (g, Some ErrOutOfBounds)
      else
        let idx = cell_index r c in
        if Board g ! idx \<noteq> Empty then (g, Some ErrOccupied)
        else
          let g1 = g\<lparr>Board := (Board g)[idx := Turn g]\<rparr>;
              g2 = g1\<lparr>Moves := Moves g1 + 1\<rparr>
          in
          if hasWin (Board g2) (Turn g2) then (g2\<lparr>Winner := Turn g2, Over := True\<rparr>, None)
          else if Moves g2 = 9 then (g2\<lparr>Winner := Empty, Over := True\<rparr>, None)
          else if Turn g2 = X then (g2\<lparr>Turn := O'\<rparr>, None)
          else (g2\<lparr>Turn := X\<rparr>, None))"

text \<open>
  The helper \<^verbatim>\<open>playMoves\<close> of the domain tests: it applies the moves in order and stops
  at the first one that is rejected.
\<close>

fun playMoves :: "Game \<Rightarrow> (go_int \<times> go_int) list \<Rightarrow> Game \<times> domain_error option" where
  "playMoves g [] = (g, None)"
| "playMoves g ((r, c) # ms) =
     (case Play g r c of
        (g', None) \<Rightarrow> playMoves g' ms
      | (g', Some e) \<Rightarrow> (g', Some e))"

text \<open>The game states that \<^verbatim>\<open>New()\<close> and accepted \<^verbatim>\<open>Play\<close> calls can produce.\<close>

inductive reachable :: "Game \<Rightarrow> bool" where
  reachable_New: "reachable New"
| reachable_Play: "reachable g \<Longrightarrow> Play g r c = (g', None) \<Longrightarrow> reachable g'"

subsection \<open>The vocabulary of the specification\<close>

text \<open>
  A coordinate is in range when it is one of 0, 1, 2.  A three-in-a-row is a full row,
  a full column or a full diagonal of one mark on the row-major board.
\<close>

definition in_range :: "go_int \<Rightarrow> bool" where
  "in_range r \<longleftrightarrow> 0 \<le> sint r \<and> sint r \<le> 2"

definition row_cells :: "nat \<Rightarrow> nat list" where
  "row_cells i = [3 * i, 3 * i + 1, 3 * i + 2]"

definition col_cells :: "nat \<Rightarrow> nat list" where
  "col_cells j = [j, j + 3, j + 6]"

definition diag_cells :: "nat list list" where
  "diag_cells = [[0, 4, 8], [2, 4, 6]]"

definition winning_lines :: "nat list list" where
  "winning_lines = map row_cells [0, 1, 2] @ map col_cells [0, 1, 2] @ diag_cells"

definition line_full :: "Cell list \<Rightarrow> Cell \<Rightarrow> nat list \<Rightarrow> bool" where
  "line_full b s ln = list_all (\<lambda>k. b ! k = s) ln"

definition three_in_row :: "Cell list \<Rightarrow> Cell \<Rightarrow> bool" where
  "three_in_row b s = list_ex (line_full b s) winning_lines"

definition occupied_count :: "Cell list \<Rightarrow> nat" where
  "occupied_count b = length (filter (\<lambda>x. x \<noteq> Empty) b)"

text \<open>The seat that moves when \<open>n\<close> cells are taken: \<^verbatim>\<open>X\<close> moves first.\<close>

definition mover :: "nat \<Rightarrow> Cell" where
  "mover n = (if even n then X else O')"

text \<open>Any sequence of \<^verbatim>\<open>Play\<close> calls on one game, accepted or rejected.\<close>

fun play_calls :: "Game \<Rightarrow> (go_int \<times> go_int) list \<Rightarrow> Game" where
  "play_calls g [] = g"
| "play_calls g ((r, c) # ms) = play_calls (fst (Play g r c)) ms"

text \<open>The invariant of the reachable game states, from which the claims follow.\<close>

definition game_inv :: "Game \<Rightarrow> bool" where
  "game_inv g \<longleftrightarrow>
     length (Board g) = 9
     \<and> Moves g = of_nat (occupied_count (Board g))
     \<and> count_list (Board g) X = (occupied_count (Board g) + 1) div 2
     \<and> count_list (Board g) O' = occupied_count (Board g) div 2
     \<and> (Turn g = X \<or> Turn g = O')
     \<and> (\<not> Over g \<longrightarrow> Turn g = mover (occupied_count (Board g)))
     \<and> (Over g \<longleftrightarrow>
          three_in_row (Board g) X \<or> three_in_row (Board g) O'
          \<or> occupied_count (Board g) = 9)
     \<and> (Winner g = X \<longleftrightarrow> three_in_row (Board g) X)
     \<and> (Winner g = O' \<longleftrightarrow> three_in_row (Board g) O')"

text \<open>
  A sequence of moves from \<^verbatim>\<open>New()\<close>, every one accepted, after which seat \<open>s\<close> has
  won with line \<open>ln\<close> full of its mark, the move count being the number of moves.
\<close>

definition wins_by :: "(go_int \<times> go_int) list \<Rightarrow> Cell \<Rightarrow> nat list \<Rightarrow> bool" where
  "wins_by ms s ln \<longleftrightarrow>
     (case playMoves New ms of
        (g, e) \<Rightarrow> e = None \<and> Winner g = s \<and> Over g \<and> sint (Moves g) = int (length ms)
          \<and> line_full (Board g) s ln)"

text \<open>
  Three states of the game of the test \<^verbatim>\<open>TestGameOverBlocksFurtherMoves\<close> and of
  \<^verbatim>\<open>TestTurnFlipsAfterValidMove\<close>, used as concrete inputs.
\<close>

definition g1 :: Game where
  "g1 = \<lparr>Board = [Empty, Empty, Empty, Empty, X, Empty, Empty, Empty, Empty],
          Turn = O', Winner = Empty, Over = False, Moves = 1\<rparr>"

definition g4 :: Game where
  "g4 = \<lparr>Board = [X, X, Empty, O', O', Empty, Empty, Empty, Empty],
          Turn = X, Winner = Empty, Over = False, Moves = 4\<rparr>"

definition g5 :: Game where
  "g5 = \<lparr>Board = [X, X, X, O', O', Empty, Empty, Empty, Empty],
          Turn = X, Winner = X, Over = True, Moves = 5\<rparr>"

section \<open>Properties of the domain layer\<close>

lemma coord_cases:
  fixes r :: go_int
  assumes "\<not> r <s 0" "\<not> 2 <s r"
  shows "r = 0 \<or> r = 1 \<or> r = 2"
proof -
  from assms have "0 \<le> sint r" "sint r \<le> 2"
    by (simp_all add: word_sless_alt)
  then have "sint r = 0 \<or> sint r = 1 \<or> sint r = 2"
    by arith
  moreover have "r = word_of_int (sint r)"
    by simp
  ultimately show ?thesis
    by (metis word_of_int_0 word_of_int_1 word_of_int_numeral)
qed

lemma in_range_iff: "in_range r \<longleftrightarrow> \<not> (r <s 0 \<or> 2 <s r)"
  by (auto simp: in_range_def word_sless_alt)

lemma in_range_cases: "in_range r \<Longrightarrow> r = 0 \<or> r = 1 \<or> r = 2"
  by (simp add: in_range_iff coord_cases)

lemma cell_index_less: "in_range r \<Longrightarrow> in_range c \<Longrightarrow> cell_index r c < 9"
  by (auto dest!: in_range_cases simp: cell_index_def)

lemma hasWin_three_in_row: "hasWin b s = three_in_row b s"
proof -
  have two: "Suc (Suc 0) = 2"
    by simp
  show ?thesis
    unfolding hasWin_def lines_def three_in_row_def winning_lines_def row_cells_def
      col_cells_def diag_cells_def line_full_def
    by (auto simp add: two)
qed

lemma line_full_update:
  assumes "idx < length b" "b ! idx \<noteq> s" "t \<noteq> s"
  shows "line_full (b[idx := t]) s ln = line_full b s ln"
  using assms by (auto simp: line_full_def list_all_iff nth_list_update)

lemma three_in_row_update:
  assumes "idx < length b" "b ! idx \<noteq> s" "t \<noteq> s"
  shows "three_in_row (b[idx := t]) s = three_in_row b s"
proof -
  from assms have "line_full (b[idx := t]) s = line_full b s"
    by (intro ext) (rule line_full_update)
  then show ?thesis
    by (simp add: three_in_row_def)
qed

lemma count_list_update:
  assumes "idx < length b" "b ! idx \<noteq> s"
  shows "count_list (b[idx := t]) s = (if t = s then Suc (count_list b s) else count_list b s)"
  using assms
proof (induction b arbitrary: idx)
  case Nil
  then show ?case by simp
next
  case (Cons a b)
  then show ?case by (cases idx) auto
qed

lemma occupied_count_update:
  assumes "idx < length b" "b ! idx = Empty" "t \<noteq> Empty"
  shows "occupied_count (b[idx := t]) = Suc (occupied_count b)"
  using assms unfolding occupied_count_def
proof (induction b arbitrary: idx)
  case Nil
  then show ?case by simp
next
  case (Cons a b)
  then show ?case by (cases idx) auto
qed

lemma occupied_count_le: "occupied_count b \<le> length b"
  by (simp add: occupied_count_def)

lemma board_nine:
  assumes "length b = 9"
  obtains c0 c1 c2 c3 c4 c5 c6 c7 c8 where "b = [c0, c1, c2, c3, c4, c5, c6, c7, c8]"
proof -
  from assms have "length b = Suc (Suc (Suc (Suc (Suc (Suc (Suc (Suc (Suc 0))))))))"
    by simp
  then show ?thesis
    by (auto simp: length_Suc_conv intro: that)
qed

lemma three_in_row_count:
  assumes "length b = 9" "three_in_row b s"
  shows "3 \<le> count_list b s"
proof -
  from assms(1) obtain c0 c1 c2 c3 c4 c5 c6 c7 c8
    where b: "b = [c0, c1, c2, c3, c4, c5, c6, c7, c8]"
    by (rule board_nine)
  have two: "Suc (Suc 0) = 2"
    by simp
  from assms(2) show ?thesis
    unfolding b three_in_row_def winning_lines_def row_cells_def col_cells_def
      diag_cells_def line_full_def
    by (auto simp: two)
qed

lemma sint_of_nat_small:
  assumes "n \<le> 9"
  shows "sint (of_nat n :: go_int) = int n"
  using assms by (simp add: signed_of_nat signed_take_bit_int_eq_self)

lemma of_nat_eq_9:
  assumes "n \<le> 9"
  shows "(of_nat n :: go_int) = 9 \<longleftrightarrow> n = 9"
proof
  assume "(of_nat n :: go_int) = 9"
  then have "sint (of_nat n :: go_int) = sint (9 :: go_int)"
    by simp
  with assms show "n = 9"
    by (simp add: sint_of_nat_small)
next
  assume "n = 9"
  then show "(of_nat n :: go_int) = 9"
    by simp
qed

lemma New_explicit:
  "New = \<lparr>Board = [Empty, Empty, Empty, Empty, Empty, Empty, Empty, Empty, Empty],
          Turn = X, Winner = Empty, Over = False, Moves = 0\<rparr>"
  by (simp add: New_def eval_nat_numeral)

lemma Play_None_D:
  assumes "Play g r c = (g', None)"
  shows "in_range r" and "in_range c" and "\<not> Over g"
    and "Board g ! cell_index r c = Empty"
    and "Board g' = (Board g)[cell_index r c := Turn g]"
    and "Moves g' = Moves g + 1"
    and "if three_in_row (Board g') (Turn g)
         then Winner g' = Turn g \<and> Over g' \<and> Turn g' = Turn g
         else if Moves g' = 9
         then Over g' \<and> Winner g' = Empty \<and> Turn g' = Turn g
         else Turn g' = (if Turn g = X then O' else X)
           \<and> Over g' = Over g \<and> Winner g' = Winner g"
proof -
  from assms show rng: "in_range r" "in_range c"
    by (auto simp: Play_def in_range_iff split: if_splits)
  from assms rng show no: "\<not> Over g" "Board g ! cell_index r c = Empty"
    by (auto simp: Play_def in_range_iff Let_def split: if_splits)
  from assms rng no show b: "Board g' = (Board g)[cell_index r c := Turn g]"
    and m: "Moves g' = Moves g + 1"
    by (auto simp: Play_def in_range_iff Let_def split: if_splits)
  from assms rng no show "if three_in_row (Board g') (Turn g)
         then Winner g' = Turn g \<and> Over g' \<and> Turn g' = Turn g
         else if Moves g' = 9
         then Over g' \<and> Winner g' = Empty \<and> Turn g' = Turn g
         else Turn g' = (if Turn g = X then O' else X)
           \<and> Over g' = Over g \<and> Winner g' = Winner g"
    unfolding b m
    by (auto simp: Play_def in_range_iff Let_def hasWin_three_in_row split: if_splits)
qed

text \<open>
  C3.  \<^verbatim>\<open>Play\<close> returns an error exactly when the game is over, a coordinate is outside
  0..2 or the target cell is not empty; the error is \<^verbatim>\<open>ErrGameOver\<close> in the first case,
  \<^verbatim>\<open>ErrOutOfBounds\<close> in the second and \<^verbatim>\<open>ErrOccupied\<close> in the third, the checks being
  made in this order; a call that returns an error leaves the game as it was.  In
  particular every call on a finished game returns \<^verbatim>\<open>ErrGameOver\<close> and changes nothing.
\<close>

theorem Play_rejects:
  "(snd (Play g r c) \<noteq> None \<longleftrightarrow>
      Over g \<or> \<not> in_range r \<or> \<not> in_range c \<or> Board g ! cell_index r c \<noteq> Empty)
   \<and> (snd (Play g r c) \<noteq> None \<longrightarrow> fst (Play g r c) = g)
   \<and> (Over g \<longrightarrow> Play g r c = (g, Some ErrGameOver))
   \<and> (\<not> Over g \<and> (\<not> in_range r \<or> \<not> in_range c) \<longrightarrow>
        Play g r c = (g, Some ErrOutOfBounds))
   \<and> (\<not> Over g \<and> in_range r \<and> in_range c \<and> Board g ! cell_index r c \<noteq> Empty \<longrightarrow>
        Play g r c = (g, Some ErrOccupied))"
  by (auto simp: Play_def Let_def in_range_iff)

theorem Play_rejects_witness:
  "(snd (Play (New\<lparr>Over := True\<rparr>) 1 1) \<noteq> None \<longleftrightarrow>
      Over (New\<lparr>Over := True\<rparr>) \<or> \<not> in_range 1 \<or> \<not> in_range 1
      \<or> Board (New\<lparr>Over := True\<rparr>) ! cell_index 1 1 \<noteq> Empty)
   \<and> fst (Play (New\<lparr>Over := True\<rparr>) 1 1) = New\<lparr>Over := True\<rparr>
   \<and> Play (New\<lparr>Over := True\<rparr>) 1 1 = (New\<lparr>Over := True\<rparr>, Some ErrGameOver)
   \<and> Play New 3 0 = (New, Some ErrOutOfBounds)
   \<and> Play (New\<lparr>Board := (Board New)[4 := X]\<rparr>) 1 1
       = (New\<lparr>Board := (Board New)[4 := X]\<rparr>, Some ErrOccupied)"
  using Play_rejects [of "New\<lparr>Over := True\<rparr>" 1 1] Play_rejects [of New 3 0]
    Play_rejects [of "New\<lparr>Board := (Board New)[4 := X]\<rparr>" 1 1]
  by (simp add: New_def in_range_def cell_index_def)




lemma game_inv_New: "game_inv New"
proof -
  have two: "Suc (Suc 0) = 2"
    by simp
  show ?thesis
    unfolding game_inv_def New_explicit
    by (simp add: occupied_count_def mover_def three_in_row_def winning_lines_def
        row_cells_def col_cells_def diag_cells_def line_full_def)
qed

lemma game_inv_Play:
  assumes inv: "game_inv g" and acc: "Play g r c = (g', None)"
  shows "game_inv g'"
proof -
  note d = Play_None_D [OF acc]
  let ?b = "Board g" and ?i = "cell_index r c" and ?t = "Turn g"
  let ?n = "occupied_count (Board g)"
  from inv have len: "length ?b = 9"
    and mv: "Moves g = of_nat ?n"
    and cx: "count_list ?b X = (?n + 1) div 2"
    and co: "count_list ?b O' = ?n div 2"
    by (simp_all add: game_inv_def)
  from inv d(3) have t: "?t = mover ?n"
    and nx: "\<not> three_in_row ?b X" and no: "\<not> three_in_row ?b O'"
    and n9: "?n \<noteq> 9" and w: "Winner g = Empty"
    by (auto simp: game_inv_def intro: Cell.exhaust)
  from len have "?n \<le> 9"
    using occupied_count_le [of ?b] by simp
  with n9 have n8: "?n \<le> 8"
    by simp
  from d(1,2) len have idx: "?i < length ?b"
    by (simp add: cell_index_less)
  from t have tne: "?t \<noteq> Empty"
    by (simp add: mover_def)
  have len': "length (Board g') = 9"
    by (simp add: d(5) len)
  have occ': "occupied_count (Board g') = Suc ?n"
    unfolding d(5) using idx d(4) tne by (rule occupied_count_update)
  have mv': "Moves g' = of_nat (Suc ?n)"
    by (simp add: d(6) mv)
  have cx': "count_list (Board g') X = (Suc ?n + 1) div 2"
    unfolding d(5) using idx d(4) t cx
    by (auto simp add: count_list_update mover_def)
  have co': "count_list (Board g') O' = Suc ?n div 2"
    unfolding d(5) using idx d(4) t co
    by (auto simp add: count_list_update mover_def)
  have other: "\<not> three_in_row (Board g') s" if "s \<noteq> ?t" "s \<noteq> Empty" for s
  proof -
    from that idx d(4) have "three_in_row (Board g') s = three_in_row ?b s"
      unfolding d(5) by (intro three_in_row_update) auto
    with nx no that(2) show ?thesis
      by (cases s) auto
  qed
  have m9: "Moves g' = 9 \<longleftrightarrow> Suc ?n = 9"
    unfolding mv' using n8 by (intro of_nat_eq_9) simp
  have tcase: "?t = X \<or> ?t = O'"
    using tne by (cases ?t) auto
  show ?thesis
  proof (cases "three_in_row (Board g') ?t")
    case True
    with d(7) have r: "Winner g' = ?t" "Over g'" "Turn g' = ?t"
      by simp_all
    from tcase True other r len' mv' cx' co' occ' show ?thesis
      unfolding game_inv_def by auto
  next
    case nowin: False
    show ?thesis
    proof (cases "Moves g' = 9")
      case True
      with nowin d(7) have r: "Winner g' = Empty" "Over g'" "Turn g' = ?t"
        by simp_all
      from True m9 have "Suc ?n = 9" by simp
      with tcase nowin other r len' mv' cx' co' occ' show ?thesis
        unfolding game_inv_def by auto
    next
      case False
      with nowin d(7) have r: "Winner g' = Empty" "\<not> Over g'"
        "Turn g' = (if ?t = X then O' else X)"
        using w d(3) by simp_all
      from False m9 have "Suc ?n \<noteq> 9" by simp
      moreover have "Turn g' = mover (Suc ?n)"
        using r(3) t by (simp add: mover_def)
      ultimately show ?thesis
        using tcase nowin other r len' mv' cx' co' occ'
        unfolding game_inv_def by (auto simp: mover_def)
    qed
  qed
qed

lemma reachable_inv: "reachable g \<Longrightarrow> game_inv g"
  by (induction rule: reachable.induct) (auto intro: game_inv_New game_inv_Play)

lemma Play_Some_D:
  assumes "Play g r c = (g', Some e)"
  shows "g' = g"
  using assms by (auto simp: Play_def Let_def split: if_splits)

lemma Play_keeps_cell:
  assumes "Board g ! k \<noteq> Empty"
  shows "Board (fst (Play g r c)) ! k = Board g ! k"
proof (cases "snd (Play g r c)")
  case None
  then have acc: "Play g r c = (fst (Play g r c), None)"
    by (metis prod.collapse)
  note d = Play_None_D [OF acc]
  from assms d(4) have "k \<noteq> cell_index r c"
    by auto
  then show ?thesis
    by (simp add: d(5))
next
  case (Some e)
  then have "Play g r c = (fst (Play g r c), Some e)"
    by (metis prod.collapse)
  then have "fst (Play g r c) = g"
    by (rule Play_Some_D)
  then show ?thesis
    by simp
qed

lemma game_inv_fst_Play:
  assumes "game_inv g"
  shows "game_inv (fst (Play g r c))"
proof (cases "snd (Play g r c)")
  case None
  then have "Play g r c = (fst (Play g r c), None)"
    by (metis prod.collapse)
  with assms show ?thesis
    by (rule game_inv_Play)
next
  case (Some e)
  then have "Play g r c = (fst (Play g r c), Some e)"
    by (metis prod.collapse)
  then have "fst (Play g r c) = g"
    by (rule Play_Some_D)
  with assms show ?thesis
    by simp
qed

lemma game_inv_play_calls: "game_inv g \<Longrightarrow> game_inv (play_calls g ms)"
  by (induction g ms rule: play_calls.induct) (simp_all add: game_inv_fst_Play)

lemma play_calls_keeps_cell:
  "Board g ! k \<noteq> Empty \<Longrightarrow> Board (play_calls g ms) ! k = Board g ! k"
proof (induction g ms rule: play_calls.induct)
  case (1 g)
  then show ?case by simp
next
  case (2 g r c ms)
  from "2.prems" have "Board (fst (Play g r c)) ! k = Board g ! k"
    by (rule Play_keeps_cell)
  with 2 show ?case
    by simp
qed

lemma game_inv_moves:
  assumes "game_inv g"
  shows "sint (Moves g) = int (occupied_count (Board g))"
proof -
  from assms have "occupied_count (Board g) \<le> 9"
    using occupied_count_le [of "Board g"] by (simp add: game_inv_def)
  with assms show ?thesis
    by (simp add: game_inv_def sint_of_nat_small)
qed

text \<open>
  C10.  In every game state reachable from \<^verbatim>\<open>New()\<close> by accepted \<^verbatim>\<open>Play\<close> calls the move
  count is the number of cells that are not \<^verbatim>\<open>Empty\<close>; this still holds after any
  \<^verbatim>\<open>Play\<close> call, accepted or rejected, and after any sequence of them; and a cell
  that is not \<^verbatim>\<open>Empty\<close> keeps its mark through every such call and sequence.
\<close>

theorem moves_count_occupied:
  assumes "reachable g"
  shows "sint (Moves g) = int (occupied_count (Board g))
    \<and> (\<forall>r c. sint (Moves (fst (Play g r c))) = int (occupied_count (Board (fst (Play g r c))))
          \<and> (\<forall>k. Board g ! k \<noteq> Empty \<longrightarrow> Board (fst (Play g r c)) ! k = Board g ! k))
    \<and> (\<forall>ms. sint (Moves (play_calls g ms)) = int (occupied_count (Board (play_calls g ms)))
          \<and> (\<forall>k. Board g ! k \<noteq> Empty \<longrightarrow> Board (play_calls g ms) ! k = Board g ! k))"
proof -
  from assms have inv: "game_inv g"
    by (rule reachable_inv)
  then show ?thesis
    by (simp add: game_inv_moves game_inv_fst_Play game_inv_play_calls Play_keeps_cell
        play_calls_keeps_cell)
qed

text \<open>
  C2.  In every game state reachable from \<^verbatim>\<open>New()\<close> by accepted \<^verbatim>\<open>Play\<close> calls:
  the game is over iff \<^verbatim>\<open>X\<close> or \<^verbatim>\<open>O\<close> has a three-in-a-row or the move count is 9;
  the winner is not \<^verbatim>\<open>Empty\<close> iff \<^verbatim>\<open>X\<close> or \<^verbatim>\<open>O\<close> has a three-in-a-row; the turn
  tag is \<^verbatim>\<open>X\<close> or \<^verbatim>\<open>O\<close>, and differs before and after every accepted move that does
  not finish the game; and once the game is over every \<^verbatim>\<open>Play\<close> call returns
  \<^verbatim>\<open>ErrGameOver\<close> and leaves the state as it was.
\<close>

theorem reachable_game_invariant:
  assumes "reachable g"
  shows "(Over g \<longleftrightarrow>
            three_in_row (Board g) X \<or> three_in_row (Board g) O' \<or> Moves g = 9)
    \<and> (Winner g \<noteq> Empty \<longleftrightarrow> three_in_row (Board g) X \<or> three_in_row (Board g) O')
    \<and> (Turn g = X \<or> Turn g = O')
    \<and> (\<forall>r c g'. Play g r c = (g', None) \<and> \<not> Over g' \<longrightarrow> Turn g' \<noteq> Turn g)
    \<and> (Over g \<longrightarrow> (\<forall>r c. Play g r c = (g, Some ErrGameOver)))"
proof -
  from assms have inv: "game_inv g"
    by (rule reachable_inv)
  then have n: "occupied_count (Board g) \<le> 9"
    using occupied_count_le [of "Board g"] by (simp add: game_inv_def)
  from inv have "Moves g = 9 \<longleftrightarrow> occupied_count (Board g) = 9"
    using of_nat_eq_9 [OF n] by (simp add: game_inv_def)
  with inv have 1: "Over g \<longleftrightarrow>
      three_in_row (Board g) X \<or> three_in_row (Board g) O' \<or> Moves g = 9"
    by (simp add: game_inv_def)
  from inv have 2: "Winner g \<noteq> Empty \<longleftrightarrow> three_in_row (Board g) X \<or> three_in_row (Board g) O'"
    unfolding game_inv_def by (cases "Winner g") auto
  from inv have 3: "Turn g = X \<or> Turn g = O'"
    by (simp add: game_inv_def)
  have "Turn g' \<noteq> Turn g" if "Play g r c = (g', None)" "\<not> Over g'" for r c g'
    using Play_None_D(7) [OF that(1)] that(2) 3 by (auto split: if_splits)
  then have 4: "\<forall>r c g'. Play g r c = (g', None) \<and> \<not> Over g' \<longrightarrow> Turn g' \<noteq> Turn g"
    by blast
  have 5: "Over g \<longrightarrow> (\<forall>r c. Play g r c = (g, Some ErrGameOver))"
    by (simp add: Play_def)
  show ?thesis
    by (intro conjI) (rule 1 2 3 4 5)+
qed

lemma winning_lines_explicit:
  "winning_lines = [[0, 1, 2], [3, 4, 5], [6, 7, 8], [0, 3, 6], [1, 4, 7], [2, 5, 8],
     [0, 4, 8], [2, 4, 6]]"
  by code_simp

lemma first_mover_wins_in_5:
  assumes "ln \<in> set winning_lines"
  shows "\<exists>ms. length ms = 5 \<and> wins_by ms X ln"
proof -
  from assms consider "ln = [0, 1, 2]"
    | "ln = [3, 4, 5]"
    | "ln = [6, 7, 8]"
    | "ln = [0, 3, 6]"
    | "ln = [1, 4, 7]"
    | "ln = [2, 5, 8]"
    | "ln = [0, 4, 8]"
    | "ln = [2, 4, 6]"
    unfolding winning_lines_explicit by auto
  then show ?thesis
  proof cases
    case 1
    have "wins_by [(0, 0), (1, 0), (0, 1), (1, 1), (0, 2)] X [0, 1, 2]"
      by code_simp
    with 1 show ?thesis
      by (intro exI [of _ "[(0, 0), (1, 0), (0, 1), (1, 1), (0, 2)]"]) simp
  next
    case 2
    have "wins_by [(1, 0), (0, 0), (1, 1), (0, 1), (1, 2)] X [3, 4, 5]"
      by code_simp
    with 2 show ?thesis
      by (intro exI [of _ "[(1, 0), (0, 0), (1, 1), (0, 1), (1, 2)]"]) simp
  next
    case 3
    have "wins_by [(2, 0), (0, 0), (2, 1), (0, 1), (2, 2)] X [6, 7, 8]"
      by code_simp
    with 3 show ?thesis
      by (intro exI [of _ "[(2, 0), (0, 0), (2, 1), (0, 1), (2, 2)]"]) simp
  next
    case 4
    have "wins_by [(0, 0), (0, 1), (1, 0), (0, 2), (2, 0)] X [0, 3, 6]"
      by code_simp
    with 4 show ?thesis
      by (intro exI [of _ "[(0, 0), (0, 1), (1, 0), (0, 2), (2, 0)]"]) simp
  next
    case 5
    have "wins_by [(0, 1), (0, 0), (1, 1), (0, 2), (2, 1)] X [1, 4, 7]"
      by code_simp
    with 5 show ?thesis
      by (intro exI [of _ "[(0, 1), (0, 0), (1, 1), (0, 2), (2, 1)]"]) simp
  next
    case 6
    have "wins_by [(0, 2), (0, 0), (1, 2), (0, 1), (2, 2)] X [2, 5, 8]"
      by code_simp
    with 6 show ?thesis
      by (intro exI [of _ "[(0, 2), (0, 0), (1, 2), (0, 1), (2, 2)]"]) simp
  next
    case 7
    have "wins_by [(0, 0), (0, 1), (1, 1), (0, 2), (2, 2)] X [0, 4, 8]"
      by code_simp
    with 7 show ?thesis
      by (intro exI [of _ "[(0, 0), (0, 1), (1, 1), (0, 2), (2, 2)]"]) simp
  next
    case 8
    have "wins_by [(0, 2), (0, 0), (1, 1), (0, 1), (2, 0)] X [2, 4, 6]"
      by code_simp
    with 8 show ?thesis
      by (intro exI [of _ "[(0, 2), (0, 0), (1, 1), (0, 1), (2, 0)]"]) simp
  qed
qed

lemma second_mover_wins_in_6:
  assumes "ln \<in> set winning_lines"
  shows "\<exists>ms. length ms = 6 \<and> wins_by ms O' ln"
proof -
  from assms consider "ln = [0, 1, 2]"
    | "ln = [3, 4, 5]"
    | "ln = [6, 7, 8]"
    | "ln = [0, 3, 6]"
    | "ln = [1, 4, 7]"
    | "ln = [2, 5, 8]"
    | "ln = [0, 4, 8]"
    | "ln = [2, 4, 6]"
    unfolding winning_lines_explicit by auto
  then show ?thesis
  proof cases
    case 1
    have "wins_by [(1, 0), (0, 0), (1, 1), (0, 1), (2, 2), (0, 2)] O' [0, 1, 2]"
      by code_simp
    with 1 show ?thesis
      by (intro exI [of _ "[(1, 0), (0, 0), (1, 1), (0, 1), (2, 2), (0, 2)]"]) simp
  next
    case 2
    have "wins_by [(0, 0), (1, 0), (0, 1), (1, 1), (2, 2), (1, 2)] O' [3, 4, 5]"
      by code_simp
    with 2 show ?thesis
      by (intro exI [of _ "[(0, 0), (1, 0), (0, 1), (1, 1), (2, 2), (1, 2)]"]) simp
  next
    case 3
    have "wins_by [(0, 0), (2, 0), (0, 1), (2, 1), (1, 2), (2, 2)] O' [6, 7, 8]"
      by code_simp
    with 3 show ?thesis
      by (intro exI [of _ "[(0, 0), (2, 0), (0, 1), (2, 1), (1, 2), (2, 2)]"]) simp
  next
    case 4
    have "wins_by [(0, 1), (0, 0), (0, 2), (1, 0), (1, 1), (2, 0)] O' [0, 3, 6]"
      by code_simp
    with 4 show ?thesis
      by (intro exI [of _ "[(0, 1), (0, 0), (0, 2), (1, 0), (1, 1), (2, 0)]"]) simp
  next
    case 5
    have "wins_by [(0, 0), (0, 1), (0, 2), (1, 1), (1, 0), (2, 1)] O' [1, 4, 7]"
      by code_simp
    with 5 show ?thesis
      by (intro exI [of _ "[(0, 0), (0, 1), (0, 2), (1, 1), (1, 0), (2, 1)]"]) simp
  next
    case 6
    have "wins_by [(0, 0), (0, 2), (0, 1), (1, 2), (1, 0), (2, 2)] O' [2, 5, 8]"
      by code_simp
    with 6 show ?thesis
      by (intro exI [of _ "[(0, 0), (0, 2), (0, 1), (1, 2), (1, 0), (2, 2)]"]) simp
  next
    case 7
    have "wins_by [(0, 1), (0, 0), (0, 2), (1, 1), (1, 0), (2, 2)] O' [0, 4, 8]"
      by code_simp
    with 7 show ?thesis
      by (intro exI [of _ "[(0, 1), (0, 0), (0, 2), (1, 1), (1, 0), (2, 2)]"]) simp
  next
    case 8
    have "wins_by [(0, 0), (0, 2), (0, 1), (1, 1), (1, 0), (2, 0)] O' [2, 4, 6]"
      by code_simp
    with 8 show ?thesis
      by (intro exI [of _ "[(0, 0), (0, 2), (0, 1), (1, 1), (1, 0), (2, 0)]"]) simp
  qed
qed

lemma reachable_playMoves:
  "reachable g \<Longrightarrow> playMoves g ms = (g', None) \<Longrightarrow> reachable g'"
proof (induction g ms rule: playMoves.induct)
  case (1 g)
  then show ?case by simp
next
  case (2 g r c ms)
  obtain g1 e where p: "Play g r c = (g1, e)"
    by (cases "Play g r c")
  with "2.prems"(2) have e: "e = None"
    by (cases e) auto
  with p "2.prems"(1) have "reachable g1"
    by (auto intro: reachable_Play)
  with 2 p e show ?case
    by simp
qed

lemma winner_needs_moves:
  assumes "game_inv g"
  shows "(Winner g = X \<longrightarrow> 5 \<le> sint (Moves g)) \<and> (Winner g = O' \<longrightarrow> 6 \<le> sint (Moves g))"
proof -
  let ?n = "occupied_count (Board g)"
  from assms have m: "sint (Moves g) = int ?n"
    by (rule game_inv_moves)
  from assms have len: "length (Board g) = 9"
    by (simp add: game_inv_def)
  have "5 \<le> ?n" if "Winner g = X"
  proof -
    from that assms have "three_in_row (Board g) X"
      by (simp add: game_inv_def)
    with len have "3 \<le> count_list (Board g) X"
      by (rule three_in_row_count)
    with assms show ?thesis
      by (simp add: game_inv_def)
  qed
  moreover have "6 \<le> ?n" if "Winner g = O'"
  proof -
    from that assms have "three_in_row (Board g) O'"
      by (simp add: game_inv_def)
    with len have "3 \<le> count_list (Board g) O'"
      by (rule three_in_row_count)
    with assms show ?thesis
      by (simp add: game_inv_def)
  qed
  ultimately show ?thesis
    using m by simp
qed

lemma completed_line_wins:
  assumes "Play g r c = (g', None)" "ln \<in> set winning_lines" "line_full (Board g') (Turn g) ln"
  shows "Winner g' = Turn g \<and> Over g'"
proof -
  from assms(2,3) have "three_in_row (Board g') (Turn g)"
    by (auto simp: three_in_row_def list_ex_iff)
  with Play_None_D(7) [OF assms(1)] show ?thesis
    by simp
qed

text \<open>
  C8.  There are 8 winning lines.  An accepted move after which one of them is full of
  the mover's mark sets the winner to the mover and ends the game.  In a reachable
  state, a win of \<^verbatim>\<open>X\<close> (the first mover) has a move count of at least 5 and a win of
  \<^verbatim>\<open>O\<close> one of at least 6; and for each of the 8 lines some sequence of 5 accepted
  moves makes \<^verbatim>\<open>X\<close> win with that line, and some sequence of 6 makes \<^verbatim>\<open>O\<close> win
  with it.
\<close>

theorem winning_line_minimal_moves:
  "length winning_lines = 8 \<and> distinct winning_lines
   \<and> (\<forall>g r c g' ln. Play g r c = (g', None) \<and> ln \<in> set winning_lines
          \<and> line_full (Board g') (Turn g) ln
        \<longrightarrow> Winner g' = Turn g \<and> Over g')
   \<and> (\<forall>g. reachable g \<longrightarrow>
          (Winner g = X \<longrightarrow> 5 \<le> sint (Moves g)) \<and> (Winner g = O' \<longrightarrow> 6 \<le> sint (Moves g)))
   \<and> (\<forall>ln \<in> set winning_lines.
          (\<exists>ms. length ms = 5 \<and> wins_by ms X ln) \<and> (\<exists>ms. length ms = 6 \<and> wins_by ms O' ln))"
proof -
  have 1: "length winning_lines = 8 \<and> distinct winning_lines"
    by (simp add: winning_lines_explicit)
  have 2: "\<forall>g r c g' ln. Play g r c = (g', None) \<and> ln \<in> set winning_lines
          \<and> line_full (Board g') (Turn g) ln
        \<longrightarrow> Winner g' = Turn g \<and> Over g'"
    using completed_line_wins by blast
  have 3: "\<forall>g. reachable g \<longrightarrow>
          (Winner g = X \<longrightarrow> 5 \<le> sint (Moves g)) \<and> (Winner g = O' \<longrightarrow> 6 \<le> sint (Moves g))"
    using winner_needs_moves reachable_inv by blast
  have 4: "\<forall>ln \<in> set winning_lines.
          (\<exists>ms. length ms = 5 \<and> wins_by ms X ln) \<and> (\<exists>ms. length ms = 6 \<and> wins_by ms O' ln)"
    using first_mover_wins_in_5 second_mover_wins_in_6 by blast
  from 1 2 3 4 show ?thesis
    by (intro conjI) blast+
qed


lemma top_row_game:
  "playMoves New [(0, 0), (1, 0), (0, 1), (1, 1)] = (g4, None)"
  "Play g4 0 2 = (g5, None)"
  "Play New 1 1 = (g1, None)"
  by (code_simp+)

lemma reachable_examples: "reachable g1" "reachable g4" "reachable g5"
proof -
  show "reachable g1"
    using reachable_New top_row_game(3) by (rule reachable_Play)
  show 4: "reachable g4"
    using reachable_New top_row_game(1) by (rule reachable_playMoves)
  then show "reachable g5"
    using top_row_game(2) by (rule reachable_Play)
qed

theorem winning_line_minimal_moves_witness:
  "Play g4 0 2 = (g5, None) \<and> [0, 1, 2] \<in> set winning_lines
   \<and> line_full (Board g5) (Turn g4) [0, 1, 2] \<and> Winner g5 = X \<and> Over g5
   \<and> reachable g5 \<and> 5 \<le> sint (Moves g5)
   \<and> (\<exists>ms. length ms = 5 \<and> wins_by ms X [0, 1, 2])
   \<and> (\<exists>ms. length ms = 6 \<and> wins_by ms O' [0, 1, 2])"
proof -
  have ln: "[0, 1, 2] \<in> set winning_lines"
    by (simp add: winning_lines_explicit)
  have full: "line_full (Board g5) (Turn g4) [0, 1, 2]"
    by (simp add: g4_def g5_def line_full_def)
  have w: "Winner g5 = X"
    by (simp add: g5_def)
  from winning_line_minimal_moves top_row_game(2) ln full reachable_examples(3) w show ?thesis
    by metis
qed

theorem reachable_game_invariant_witness:
  "reachable g5 \<and> Over g5 \<and> three_in_row (Board g5) X \<and> Winner g5 \<noteq> Empty
   \<and> Play g5 2 2 = (g5, Some ErrGameOver)
   \<and> reachable New \<and> Play New 1 1 = (g1, None) \<and> \<not> Over g1 \<and> Turn g1 \<noteq> Turn New"
proof -
  note a = reachable_game_invariant [OF reachable_examples(3)]
  note b = reachable_game_invariant [OF reachable_New]
  have w: "Winner g5 \<noteq> Empty" and o: "\<not> Over g1" and x: "three_in_row (Board g5) X"
    by (simp_all add: g5_def g1_def three_in_row_def winning_lines_explicit line_full_def)
  from a x have over: "Over g5"
    by blast
  with a have "Play g5 2 2 = (g5, Some ErrGameOver)"
    by blast
  moreover from b top_row_game(3) o have "Turn g1 \<noteq> Turn New"
    by blast
  ultimately show ?thesis
    using reachable_examples(3) reachable_New top_row_game(3) w o x over by blast
qed

theorem moves_count_occupied_witness:
  "reachable g1 \<and> sint (Moves g1) = 1 \<and> occupied_count (Board g1) = 1
   \<and> Board (fst (Play g1 1 1)) ! 4 = X
   \<and> Board (play_calls g1 [(1, 1), (0, 0), (1, 1), (7, 7), (0, 1)]) ! 4 = X"
proof -
  note a = moves_count_occupied [OF reachable_examples(1)]
  have c: "Board g1 ! 4 = X" and n: "occupied_count (Board g1) = 1"
    by (simp_all add: g1_def occupied_count_def)
  from a n have "sint (Moves g1) = 1"
    by simp
  moreover from a c have "Board (fst (Play g1 1 1)) ! 4 = X"
    by (metis Cell.distinct(1))
  moreover from a c
  have "Board (play_calls g1 [(1, 1), (0, 0), (1, 1), (7, 7), (0, 1)]) ! 4 = X"
    by (metis Cell.distinct(1))
  ultimately show ?thesis
    using reachable_examples(1) n by blast
qed

end
